theory Spec2Isabelle
  imports Complex_Main
begin

section \<open>The Toast component (src/unnamed/part_001)\<close>

text \<open>
  The component is a React function component. Its model has three layers:
  \<^item> the pure computations of a render (\<open>safeVariant\<close>, \<open>safeDuration\<close>, the icon and style
    lookups, \<open>getAnimationClass\<close>, the progress-bar guard);
  \<^item> the state of one mounted instance: the three \<open>useState\<close> cells, the values of two of
    them that the functions of the committed render closed over, the two \<open>useRef\<close> cells
    that hold scheduler handles, and the host's two queues of deferred callbacks
    (\<open>setTimeout\<close> and \<open>requestAnimationFrame\<close>);
  \<^item> a step function that delivers one event to the instance: time passing, a timeout or
    an animation frame being run by the host, a DOM event, React rendering the component
    again, unmounting.

  What the model takes from the host:
  \<^item> JavaScript numbers are exact rationals and \<open>Date.now()\<close> is an integer number of
    milliseconds that never decreases; non-finite numbers are outside the model.
  \<^item> The delay of \<open>setTimeout\<close> is converted to a signed 32-bit integer, and a negative
    result counts as 0. A timeout never runs before that many milliseconds have passed; it
    may run any time later, and pending callbacks may run in any order.
  \<^item> A state setter records the new value; the component is rendered again by a later
    event of its own (\<open>Render\<close>). Until then the handlers on the element are those of
    the last render and see the \<open>isLeaving\<close> and \<open>progress\<close> of that render, and a callback
    handed to the scheduler keeps what its closure captured. The effects of a render run
    with it.
  \<^item> The props of an instance do not change, and the rest props spread onto the element
    replace none of its handlers.
\<close>

subsection \<open>Values and props\<close>

datatype jsval = JUndefined | JNull | JNaN | JBool bool | JNum rat | JStr string | JObject nat

datatype js_error = TypeError | InvalidElementType | CallbackError

datatype icon_component = CheckCircle | AlertCircle | AlertTriangle | Info | X

record variant_style =
  container :: string
  icon :: string
  iconBg :: string

text \<open>The \<open>onClose\<close> prop: absent, or a function that returns, or a function that throws.\<close>

datatype on_close = NoCallback | Callback bool

record toast_props =
  variant :: jsval
  duration :: jsval
  onClose :: on_close
  showProgress :: bool
  position :: string
  development :: bool

text \<open>A destructuring default applies exactly when the prop is \<open>undefined\<close>.\<close>

definition default_param :: "jsval \<Rightarrow> jsval \<Rightarrow> jsval" where
  "default_param v d = (if v = JUndefined then d else v)"

definition toastIcons :: "(string \<times> icon_component) list" where
  "toastIcons =
     [(''success'', CheckCircle), (''error'', AlertCircle),
      (''warning'', AlertTriangle), (''info'', Info)]"

definition toastVariants :: "(string \<times> variant_style) list" where
  "toastVariants =
     [(''success'',
         \<lparr>container = ''toast-success border-green-200 dark:border-green-800 bg-green-50 dark:bg-green-900/20'',
          icon = ''text-green-600 dark:text-green-400'',
          iconBg = ''bg-green-100 dark:bg-green-900/30''\<rparr>),
      (''error'',
         \<lparr>container = ''toast-error border-red-200 dark:border-red-800 bg-red-50 dark:bg-red-900/20'',
          icon = ''text-red-600 dark:text-red-400'',
          iconBg = ''bg-red-100 dark:bg-red-900/30''\<rparr>),
      (''warning'',
         \<lparr>container = ''toast-warning border-yellow-200 dark:border-yellow-800 bg-yellow-50 dark:bg-yellow-900/20'',
          icon = ''text-yellow-600 dark:text-yellow-400'',
          iconBg = ''bg-yellow-100 dark:bg-yellow-900/30''\<rparr>),
      (''info'',
         \<lparr>container = ''toast-info border-blue-200 dark:border-blue-800 bg-blue-50 dark:bg-blue-900/20'',
          icon = ''text-blue-600 dark:text-blue-400'',
          iconBg = ''bg-blue-100 dark:bg-blue-900/30''\<rparr>)]"

text \<open>
  \<open>obj[key]\<close> on one of the two tables: \<open>undefined\<close> (here \<open>None\<close>) when the key is not
  an own property. The only keys the component looks up are results of \<open>safeVariant\<close>.
\<close>

fun prop_lookup :: "(string \<times> 'a) list \<Rightarrow> jsval \<Rightarrow> 'a option" where
  "prop_lookup tbl (JStr k) = map_of tbl k"
| "prop_lookup tbl _ = None"

text \<open>\<open>a || b\<close> on a looked-up object or component: \<open>undefined\<close> is falsy, the rest truthy.\<close>

definition or_else :: "'a option \<Rightarrow> 'a option \<Rightarrow> 'a option" where
  "or_else a b = (case a of None \<Rightarrow> b | Some x \<Rightarrow> Some x)"

definition validVariants :: "jsval list" where
  "validVariants = [JStr ''success'', JStr ''error'', JStr ''warning'', JStr ''info'']"

definition safeVariant :: "toast_props \<Rightarrow> jsval" where
  "safeVariant p =
     (let variant = default_param (variant p) (JStr ''info'')
      in if variant \<in> set validVariants then variant else JStr ''info'')"

text \<open>\<open>typeof duration === "number" && duration >= 0 ? duration : 5000\<close>, default 5000.\<close>

definition safeDuration :: "toast_props \<Rightarrow> rat" where
  "safeDuration p =
     (case default_param (duration p) (JNum 5000) of
        JNum d \<Rightarrow> if d \<ge> 0 then d else 5000
      | _ \<Rightarrow> 5000)"

definition Icon :: "toast_props \<Rightarrow> icon_component option" where
  "Icon p = or_else (prop_lookup toastIcons (safeVariant p)) (prop_lookup toastIcons (JStr ''info''))"

definition variantStyles :: "toast_props \<Rightarrow> variant_style option" where
  "variantStyles p =
     or_else (prop_lookup toastVariants (safeVariant p)) (prop_lookup toastVariants (JStr ''info''))"

subsection \<open>Strings\<close>

text \<open>\<open>String.prototype.includes\<close>: the argument occurs as a contiguous substring.\<close>

fun starts_with :: "string \<Rightarrow> string \<Rightarrow> bool" where
  "starts_with s [] = True"
| "starts_with [] (c # cs) = False"
| "starts_with (x # xs) (c # cs) = (x = c \<and> starts_with xs cs)"

fun str_includes :: "string \<Rightarrow> string \<Rightarrow> bool" where
  "str_includes [] sub = (sub = [])"
| "str_includes (x # xs) sub = (starts_with (x # xs) sub \<or> str_includes xs sub)"

subsection \<open>The host's scheduler and the state of one instance\<close>

text \<open>
  A handle is what \<open>setTimeout\<close> or \<open>requestAnimationFrame\<close> returns: a positive integer,
  so a ref that holds one is truthy and a ref that holds \<open>null\<close> (here \<open>None\<close>) is not.

  \<open>isVisible\<close>, \<open>isLeaving\<close> and \<open>progress\<close> are the current values of the three state cells,
  as the setters left them. \<open>renderedLeaving\<close> and \<open>renderedProgress\<close> are the values that
  \<open>isLeaving\<close> and \<open>progress\<close> had in the last render: the constants that \<open>handleClose\<close>,
  \<open>handleKeyDown\<close> and \<open>handleMouseLeave\<close> of that render read.

  The callbacks the component hands to the scheduler, with what each closure captured:
  \<^item> \<open>HandleCloseCb b\<close> is \<open>() => { handleClose(); }\<close> where \<open>handleClose\<close> belongs to a render
    in which \<open>isLeaving\<close> was \<open>b\<close>;
  \<^item> \<open>OnCloseCb\<close> is the function \<open>handleClose\<close> schedules after 300 ms;
  \<^item> \<open>EntranceCb\<close> is \<open>() => { setIsVisible(true); }\<close>;
  \<^item> \<open>UpdateProgressCb startTime\<close> is the effect's \<open>updateProgress\<close>;
  \<^item> \<open>ResumeProgressCb startTime initialProgress remainingTime\<close> is the \<open>updateProgress\<close> of
    \<open>handleMouseLeave\<close>.
\<close>

type_synonym handle = nat

datatype timeout_cb = HandleCloseCb bool | OnCloseCb

datatype frame_cb = EntranceCb | UpdateProgressCb int | ResumeProgressCb int rat rat

record pending_timeout =
  th :: handle
  setAt :: int
  delay :: rat
  tcb :: timeout_cb

record toast_state =
  isVisible :: bool
  isLeaving :: bool
  progress :: rat
  renderedLeaving :: bool
  renderedProgress :: rat
  timerRef :: "handle option"
  progressRef :: "handle option"
  timeouts :: "pending_timeout list"
  frames :: "(handle \<times> frame_cb) list"
  nextHandle :: handle
  now :: int
  mounted :: bool
  closeCalls :: nat
  errorLogs :: nat
  uncaught :: nat

text \<open>
  The delay the host gives a timeout: the number is truncated, taken modulo \<open>2^32\<close> into
  the signed 32-bit range, and a negative result is replaced by 0.
\<close>

definition toInt32 :: "rat \<Rightarrow> int" where
  "toInt32 x =
     (let n = (if 0 \<le> x then \<lfloor>x\<rfloor> else \<lceil>x\<rceil>) mod 4294967296
      in if 2147483648 \<le> n then n - 4294967296 else n)"

definition timerDelay :: "rat \<Rightarrow> int" where
  "timerDelay ms = max 0 (toInt32 ms)"

definition setTimeout :: "timeout_cb \<Rightarrow> rat \<Rightarrow> toast_state \<Rightarrow> handle \<times> toast_state" where
  "setTimeout cb ms s =
     (nextHandle s,
      s\<lparr>timeouts := timeouts s @ [\<lparr>th = nextHandle s, setAt = now s, delay = ms, tcb = cb\<rparr>],
        nextHandle := Suc (nextHandle s)\<rparr>)"

definition clearTimeout :: "handle \<Rightarrow> toast_state \<Rightarrow> toast_state" where
  "clearTimeout h s = s\<lparr>timeouts := filter (\<lambda>e. th e \<noteq> h) (timeouts s)\<rparr>"

definition requestAnimationFrame :: "frame_cb \<Rightarrow> toast_state \<Rightarrow> handle \<times> toast_state" where
  "requestAnimationFrame cb s =
     (nextHandle s,
      s\<lparr>frames := frames s @ [(nextHandle s, cb)], nextHandle := Suc (nextHandle s)\<rparr>)"

definition cancelAnimationFrame :: "handle \<Rightarrow> toast_state \<Rightarrow> toast_state" where
  "cancelAnimationFrame h s = s\<lparr>frames := filter (\<lambda>f. fst f \<noteq> h) (frames s)\<rparr>"

text \<open>A state setter of an unmounted component does nothing.\<close>

definition setIsVisible :: "bool \<Rightarrow> toast_state \<Rightarrow> toast_state" where
  "setIsVisible v s = (if mounted s then s\<lparr>isVisible := v\<rparr> else s)"

definition setIsLeaving :: "bool \<Rightarrow> toast_state \<Rightarrow> toast_state" where
  "setIsLeaving v s = (if mounted s then s\<lparr>isLeaving := v\<rparr> else s)"

definition setProgress :: "rat \<Rightarrow> toast_state \<Rightarrow> toast_state" where
  "setProgress v s = (if mounted s then s\<lparr>progress := v\<rparr> else s)"

subsection \<open>The component's functions\<close>

text \<open>
  \<open>handleClose\<close>; its first argument is the \<open>isLeaving\<close> its closure captured, which is what
  the guard tests.
\<close>

definition handleClose :: "bool \<Rightarrow> toast_state \<Rightarrow> toast_state" where
  "handleClose closure_isLeaving s =
     (if closure_isLeaving then s
      else snd (setTimeout OnCloseCb 300 (setIsLeaving True s)))"

text \<open>\<open>onClose?.(id)\<close>: the state after the call, and the exception it raised, if any.\<close>

definition call_onClose :: "toast_props \<Rightarrow> toast_state \<Rightarrow> toast_state \<times> js_error option" where
  "call_onClose p s =
     (case onClose p of
        NoCallback \<Rightarrow> (s, None)
      | Callback throws \<Rightarrow>
          (s\<lparr>closeCalls := Suc (closeCalls s)\<rparr>, if throws then Some CallbackError else None))"

text \<open>The body of the 300 ms callback: the \<open>try\<close>/\<open>catch\<close> around the call.\<close>

definition onCloseTimeout :: "toast_props \<Rightarrow> toast_state \<Rightarrow> toast_state \<times> js_error option" where
  "onCloseTimeout p s =
     (case call_onClose p s of
        (s1, None) \<Rightarrow> (s1, None)
      | (s1, Some error) \<Rightarrow>
          (if development p then (s1\<lparr>errorLogs := Suc (errorLogs s1)\<rparr>, None) else (s1, None)))"

text \<open>The effect ("Animation and auto-hide logic") and the cleanup it returns.\<close>

definition effect_body :: "toast_props \<Rightarrow> toast_state \<Rightarrow> toast_state" where
  "effect_body p s0 =
     (let closure_isLeaving = renderedLeaving s0;
          s1 = snd (requestAnimationFrame EntranceCb s0)
      in if safeDuration p > 0 then
           (let (h, s2) = setTimeout (HandleCloseCb closure_isLeaving) (safeDuration p) s1;
                s3 = s2\<lparr>timerRef := Some h\<rparr>
            in if showProgress p then
                 (let startTime = now s3;
                      (f, s4) = requestAnimationFrame (UpdateProgressCb startTime) s3
                  in s4\<lparr>progressRef := Some f\<rparr>)
               else s3)
         else s1)"

definition effect_cleanup :: "toast_state \<Rightarrow> toast_state" where
  "effect_cleanup s0 =
     (let s1 = (case timerRef s0 of Some h \<Rightarrow> clearTimeout h s0 | None \<Rightarrow> s0);
          s2 = (case progressRef s1 of Some f \<Rightarrow> cancelAnimationFrame f s1 | None \<Rightarrow> s1)
      in s2)"

definition updateProgress :: "toast_props \<Rightarrow> int \<Rightarrow> toast_state \<Rightarrow> toast_state" where
  "updateProgress p startTime s0 =
     (let elapsed = of_int (now s0 - startTime);
          newProgress = max 0 (100 - (elapsed / safeDuration p) * 100);
          s1 = setProgress newProgress s0
      in if newProgress > 0 \<and> elapsed < safeDuration p then
           (let (f, s2) = requestAnimationFrame (UpdateProgressCb startTime) s1
            in s2\<lparr>progressRef := Some f\<rparr>)
         else s1)"

definition handleMouseEnter :: "toast_state \<Rightarrow> toast_state" where
  "handleMouseEnter s0 =
     (let s1 = (case timerRef s0 of Some h \<Rightarrow> clearTimeout h s0 | None \<Rightarrow> s0);
          s2 = (case progressRef s1 of Some f \<Rightarrow> cancelAnimationFrame f s1 | None \<Rightarrow> s1)
      in s2)"

text \<open>The \<open>updateProgress\<close> that \<open>handleMouseLeave\<close> defines.\<close>

definition resumeProgress :: "int \<Rightarrow> rat \<Rightarrow> rat \<Rightarrow> toast_state \<Rightarrow> toast_state" where
  "resumeProgress startTime initialProgress remainingTime s0 =
     (let elapsed = of_int (now s0 - startTime);
          newProgress = max 0 (initialProgress - (elapsed / remainingTime) * initialProgress);
          s1 = setProgress newProgress s0
      in if newProgress > 0 \<and> elapsed < remainingTime then
           (let (f, s2) =
                  requestAnimationFrame (ResumeProgressCb startTime initialProgress remainingTime) s1
            in s2\<lparr>progressRef := Some f\<rparr>)
         else s1)"

definition handleMouseLeave :: "toast_props \<Rightarrow> toast_state \<Rightarrow> toast_state" where
  "handleMouseLeave p s0 =
     (if safeDuration p > 0 \<and> renderedProgress s0 > 0 then
        (let remainingTime = (renderedProgress s0 / 100) * safeDuration p;
             (h, s1) = setTimeout (HandleCloseCb (renderedLeaving s0)) remainingTime s0;
             s2 = s1\<lparr>timerRef := Some h\<rparr>
         in if showProgress p then
              (let startTime = now s2;
                   initialProgress = renderedProgress s0;
                   (f, s3) =
                     requestAnimationFrame
                       (ResumeProgressCb startTime initialProgress remainingTime) s2
               in s3\<lparr>progressRef := Some f\<rparr>)
            else s2)
      else s0)"

definition handleKeyDown :: "string \<Rightarrow> toast_state \<Rightarrow> toast_state" where
  "handleKeyDown key s = (if key = ''Escape'' then handleClose (renderedLeaving s) s else s)"

definition getAnimationClass :: "toast_props \<Rightarrow> toast_state \<Rightarrow> string" where
  "getAnimationClass p s =
     (let isRightPosition = str_includes (position p) ''right'';
          isLeftPosition = str_includes (position p) ''left'';
          isTopPosition = str_includes (position p) ''top'';
          isBottomPosition = str_includes (position p) ''bottom''
      in if isLeaving s then
           (if isRightPosition then ''animate-slide-out-to-right''
            else if isLeftPosition then ''animate-slide-out-to-left''
            else if isTopPosition \<and> \<not> isRightPosition \<and> \<not> isLeftPosition
              then ''animate-slide-out-to-top''
            else if isBottomPosition \<and> \<not> isRightPosition \<and> \<not> isLeftPosition
              then ''animate-slide-out-to-bottom''
            else ''animate-slide-out-to-right'')
         else if isVisible s then
           (if isRightPosition then ''animate-slide-in-from-right''
            else if isLeftPosition then ''animate-slide-in-from-left''
            else if isTopPosition \<and> \<not> isRightPosition \<and> \<not> isLeftPosition
              then ''animate-slide-in-from-top''
            else if isBottomPosition \<and> \<not> isRightPosition \<and> \<not> isLeftPosition
              then ''animate-slide-in-from-bottom''
            else ''animate-slide-in-from-right'')
         else ''opacity-0 translate-x-full'')"

subsection \<open>What a render returns\<close>

text \<open>
  The parts of the returned element the properties below speak about. Reading a property
  of \<open>undefined\<close> throws a \<open>TypeError\<close>, and React rejects an element whose type is
  \<open>undefined\<close>; both are results of \<open>render\<close>.
\<close>

record view =
  containerClass :: string
  animationClass :: string
  iconElement :: icon_component
  iconClass :: string
  iconBgClass :: string
  ariaLive :: string
  opacity :: nat
  progressBar :: "(string list \<times> rat) option"

definition barColor :: "toast_props \<Rightarrow> string list" where
  "barColor p =
     (if safeVariant p = JStr ''success'' then [''bg-green-500''] else []) @
     (if safeVariant p = JStr ''error'' then [''bg-red-500''] else []) @
     (if safeVariant p = JStr ''warning'' then [''bg-yellow-500''] else []) @
     (if safeVariant p = JStr ''info'' then [''bg-blue-500''] else [])"

definition render :: "toast_props \<Rightarrow> toast_state \<Rightarrow> js_error + view" where
  "render p s =
     (case variantStyles p of
        None \<Rightarrow> Inl TypeError
      | Some vs \<Rightarrow>
          (case Icon p of
             None \<Rightarrow> Inl InvalidElementType
           | Some ic \<Rightarrow>
               Inr \<lparr>containerClass = container vs,
                    animationClass = getAnimationClass p s,
                    iconElement = ic,
                    iconClass = icon vs,
                    iconBgClass = iconBg vs,
                    ariaLive = (if safeVariant p = JStr ''error'' then ''assertive'' else ''polite''),
                    opacity = (if isVisible s \<and> \<not> isLeaving s then 1 else 0),
                    progressBar =
                      (if showProgress p \<and> safeDuration p > 0
                       then Some (barColor p, progress s) else None)\<rparr>))"

subsection \<open>Events\<close>

text \<open>
  One event of the host at a time. \<open>Advance n\<close> lets \<open>n\<close> milliseconds pass. \<open>RunTimeout h\<close>
  is the host running the timeout with handle \<open>h\<close>: nothing happens unless it is pending
  and its delay has passed. \<open>RunFrame h\<close> is the host running the animation-frame callback
  with handle \<open>h\<close>. \<open>Click\<close> is a click on the close button, \<open>KeyDown\<close> a key pressed on the
  toast; the element has handlers for these and for the two mouse events, and none for
  focus events. \<open>Render\<close> is React rendering the component again and running its effects.
  \<open>Unmount\<close> is the parent removing the component. A DOM event reaches only a mounted
  component; a callback that was not cancelled runs whether it is mounted or not.
\<close>

datatype event =
    Advance nat | RunTimeout handle | RunFrame handle
  | Click | KeyDown string | MouseEnter | MouseLeave | Focus | Blur | Render | Unmount

definition run_timeout :: "toast_props \<Rightarrow> handle \<Rightarrow> toast_state \<Rightarrow> toast_state" where
  "run_timeout p h s =
     (case find (\<lambda>e. th e = h) (timeouts s) of
        None \<Rightarrow> s
      | Some e \<Rightarrow>
          if now s - setAt e < timerDelay (delay e) then s
          else
            (let s1 = s\<lparr>timeouts := filter (\<lambda>x. th x \<noteq> h) (timeouts s)\<rparr>
             in case tcb e of
                  HandleCloseCb b \<Rightarrow> handleClose b s1
                | OnCloseCb \<Rightarrow>
                    (case onCloseTimeout p s1 of
                       (s2, None) \<Rightarrow> s2
                     | (s2, Some error) \<Rightarrow> s2\<lparr>uncaught := Suc (uncaught s2)\<rparr>)))"

definition run_frame :: "toast_props \<Rightarrow> handle \<Rightarrow> toast_state \<Rightarrow> toast_state" where
  "run_frame p h s =
     (case map_of (frames s) h of
        None \<Rightarrow> s
      | Some cb \<Rightarrow>
          (let s1 = s\<lparr>frames := filter (\<lambda>f. fst f \<noteq> h) (frames s)\<rparr>
           in case cb of
                EntranceCb \<Rightarrow> setIsVisible True s1
              | UpdateProgressCb startTime \<Rightarrow> updateProgress p startTime s1
              | ResumeProgressCb startTime initialProgress remainingTime \<Rightarrow>
                  resumeProgress startTime initialProgress remainingTime s1))"

text \<open>
  A render makes the current state the one its functions close over. The effect's
  dependencies have changed exactly when \<open>handleClose\<close> has, that is when \<open>isLeaving\<close> differs
  from the one of the render before (the props of an instance are fixed), and then the
  cleanup and the effect run, with the closures of the new render.
\<close>

definition commit :: "toast_props \<Rightarrow> toast_state \<Rightarrow> toast_state" where
  "commit p s =
     (let s1 = s\<lparr>renderedLeaving := isLeaving s, renderedProgress := progress s\<rparr>
      in if isLeaving s \<noteq> renderedLeaving s then effect_body p (effect_cleanup s1) else s1)"

fun deliver :: "toast_props \<Rightarrow> event \<Rightarrow> toast_state \<Rightarrow> toast_state" where
  "deliver p (Advance n) s = s\<lparr>now := now s + int n\<rparr>"
| "deliver p (RunTimeout h) s = run_timeout p h s"
| "deliver p (RunFrame h) s = run_frame p h s"
| "deliver p Click s = (if mounted s then handleClose (renderedLeaving s) s else s)"
| "deliver p (KeyDown key) s = (if mounted s then handleKeyDown key s else s)"
| "deliver p MouseEnter s = (if mounted s then handleMouseEnter s else s)"
| "deliver p MouseLeave s = (if mounted s then handleMouseLeave p s else s)"
| "deliver p Focus s = s"
| "deliver p Blur s = s"
| "deliver p Render s = (if mounted s then commit p s else s)"
| "deliver p Unmount s = (if mounted s then (effect_cleanup s)\<lparr>mounted := False\<rparr> else s)"

definition step :: "toast_props \<Rightarrow> toast_state \<Rightarrow> event \<Rightarrow> toast_state" where
  "step p s e = deliver p e s"

definition run :: "toast_props \<Rightarrow> toast_state \<Rightarrow> event list \<Rightarrow> toast_state" where
  "run p s evs = foldl (step p) s evs"

definition initial :: "int \<Rightarrow> toast_state" where
  "initial t0 =
     \<lparr>isVisible = False, isLeaving = False, progress = 100,
      renderedLeaving = False, renderedProgress = 100,
      timerRef = None, progressRef = None, timeouts = [], frames = [],
      nextHandle = 1, now = t0, mounted = True,
      closeCalls = 0, errorLogs = 0, uncaught = 0\<rparr>"

definition mount :: "toast_props \<Rightarrow> int \<Rightarrow> toast_state" where
  "mount p t0 = effect_body p (initial t0)"

subsection \<open>The specification's reading of the animation sequencer\<close>

text \<open>
  For comparison with \<open>getAnimationClass\<close>: a lifecycle phase, and a direction chosen from
  the position by a decision list over "contains".
\<close>

datatype phase = Entering | Visible | Leaving

definition phase_of :: "toast_state \<Rightarrow> phase" where
  "phase_of s = (if isLeaving s then Leaving else if isVisible s then Visible else Entering)"

definition spec_direction :: "string \<Rightarrow> string" where
  "spec_direction pos =
     (if (\<exists>u v. pos = u @ ''right'' @ v) then ''right''
      else if (\<exists>u v. pos = u @ ''left'' @ v) then ''left''
      else if (\<exists>u v. pos = u @ ''top'' @ v) then ''top''
      else if (\<exists>u v. pos = u @ ''bottom'' @ v) then ''bottom''
      else ''right'')"

definition spec_animation_token :: "phase \<Rightarrow> string \<Rightarrow> string" where
  "spec_animation_token ph pos =
     (case ph of
        Visible \<Rightarrow> ''slide-in-from-'' @ spec_direction pos
      | Leaving \<Rightarrow> ''slide-out-to-'' @ spec_direction pos
      | Entering \<Rightarrow> [])"

section \<open>Traces and invariants\<close>

subsection \<open>Pointer events in the browser's order\<close>

text \<open>
  The browser reports \<open>mouseleave\<close> on an element only after a \<open>mouseenter\<close> on it.
  \<open>hover\<close> follows whether the pointer is over the toast; \<open>paired hov evs\<close> says that the
  trace \<open>evs\<close> has no \<open>MouseLeave\<close> while the pointer is outside, when \<open>hov\<close> tells where
  the pointer is at the start of the trace.
\<close>

fun hover :: "bool \<Rightarrow> event \<Rightarrow> bool" where
  "hover hov MouseEnter = True"
| "hover hov MouseLeave = False"
| "hover hov e = hov"

fun paired :: "bool \<Rightarrow> event list \<Rightarrow> bool" where
  "paired hov [] = True"
| "paired hov (e # es) = ((e = MouseLeave \<longrightarrow> hov) \<and> paired (hover hov e) es)"

text \<open>Events in which nobody touches the toast: time passes, the host runs callbacks,
  React renders, the focus moves.\<close>

fun time_only :: "event \<Rightarrow> bool" where
  "time_only (Advance n) = True"
| "time_only (RunTimeout h) = True"
| "time_only (RunFrame h) = True"
| "time_only Focus = True"
| "time_only Blur = True"
| "time_only Render = True"
| "time_only e = False"

definition close_requested :: "event list \<Rightarrow> bool" where
  "close_requested evs \<longleftrightarrow> Click \<in> set evs \<or> KeyDown ''Escape'' \<in> set evs"

subsection \<open>The two queues before the toast leaves\<close>

definition no_progress_frames :: "toast_state \<Rightarrow> bool" where
  "no_progress_frames s \<longleftrightarrow> (\<forall>f\<in>set (frames s). snd f = EntranceCb)"

text \<open>
  Every pending timeout is the one \<open>timerRef\<close> names and every pending progress callback
  is the one \<open>progressRef\<close> names.
\<close>

definition tracked :: "toast_state \<Rightarrow> bool" where
  "tracked s \<longleftrightarrow>
     (\<forall>e\<in>set (timeouts s). timerRef s = Some (th e)) \<and>
     (\<forall>f\<in>set (frames s). snd f \<noteq> EntranceCb \<longrightarrow> progressRef s = Some (fst f))"

text \<open>
  What holds of a toast that is not leaving: no render has seen it leaving, its queues
  are tracked by the two refs, and while the pointer is over it and after unmounting
  nothing but entrance callbacks is pending.
\<close>

definition countdown_inv :: "bool \<Rightarrow> toast_state \<Rightarrow> bool" where
  "countdown_inv hov s \<longleftrightarrow>
     (\<not> isLeaving s \<longrightarrow>
        \<not> renderedLeaving s \<and> tracked s \<and>
        (hov \<or> \<not> mounted s \<longrightarrow> timeouts s = [] \<and> no_progress_frames s))"

text \<open>
  With duration 0: no expiry timer and no progress loop exist, and the refs were never
  assigned. Without the progress bar: no progress loop exists and the progress state is
  the initial one.
\<close>

definition untimed :: "toast_state \<Rightarrow> bool" where
  "untimed s \<longleftrightarrow>
     (\<forall>e\<in>set (timeouts s). tcb e = OnCloseCb) \<and> timerRef s = None \<and>
     no_progress_frames s \<and> progressRef s = None \<and> progress s = 100"


subsection \<open>Concrete instances and traces\<close>

text \<open>
  The instances and traces on which the theorems are evaluated. In a trace from a mount
  with duration above 0 and the progress bar on, the entrance frame has handle 1, the
  expiry timer handle 2 and the first progress frame handle 3.
\<close>

definition saved_toast :: toast_props where
  "saved_toast =
     \<lparr>variant = JStr ''success'', duration = JNum 5000, onClose = Callback False,
      showProgress = True, position = ''top-right'', development = True\<rparr>"

definition plain_toast :: toast_props where
  "plain_toast =
     \<lparr>variant = JStr ''info'', duration = JNum 5000, onClose = Callback False,
      showProgress = False, position = ''top-right'', development = True\<rparr>"

definition sticky_toast :: toast_props where
  "sticky_toast =
     \<lparr>variant = JStr ''warning'', duration = JNum 0, onClose = Callback False,
      showProgress = True, position = ''bottom-left'', development = False\<rparr>"




definition stale_click :: "event list" where
  "stale_click = [Advance 5000, RunTimeout 2, Click]"

definition late_hover :: "event list" where
  "late_hover = [Advance 4900, RunFrame 3, Render, MouseEnter, Advance 10, MouseLeave]"

definition last_frame :: "event list" where
  "last_frame = [Advance 4990, RunFrame 3, Render]"

definition expiry_restart :: "event list" where
  "expiry_restart = last_frame @ [Advance 10, RunTimeout 2, Render, RunFrame 8]"

definition pause_trace :: "event list" where
  "pause_trace = [Advance 1000, RunFrame 3, Render]"

definition wait_trace :: "event list" where
  "wait_trace = [Advance 2000, Render, RunTimeout 2, RunFrame 4, Focus]"

definition idle_trace :: "event list" where
  "idle_trace = [RunFrame 1, Render, Advance 5000, MouseEnter, MouseLeave, RunTimeout 2, Focus,
                 KeyDown ''Enter'']"


definition close_then_unmount :: "event list" where
  "close_then_unmount = [Advance 1000, Click, Unmount]"


section \<open>Shared lemmas\<close>

subsection \<open>What each function changes\<close>

lemma find_handle: "find (\<lambda>e. th e = h) ts = Some e \<Longrightarrow> e \<in> set ts \<and> th e = h"
  by (induction ts) (auto split: if_splits)

lemmas prim_defs = setTimeout_def clearTimeout_def requestAnimationFrame_def cancelAnimationFrame_def
  setIsVisible_def setIsLeaving_def setProgress_def

lemma effect_body_fields:
  "timeouts (effect_body p s) =
     (if safeDuration p > 0
      then timeouts s @ [\<lparr>th = Suc (nextHandle s), setAt = now s, delay = safeDuration p,
                          tcb = HandleCloseCb (renderedLeaving s)\<rparr>]
      else timeouts s)"
  "timerRef (effect_body p s) = (if safeDuration p > 0 then Some (Suc (nextHandle s)) else timerRef s)"
  "nextHandle (effect_body p s) =
     (if safeDuration p > 0 then (if showProgress p then nextHandle s + 3 else nextHandle s + 2)
      else Suc (nextHandle s))"
  "frames (effect_body p s) =
     frames s @ [(nextHandle s, EntranceCb)] @
     (if safeDuration p > 0 \<and> showProgress p then [(nextHandle s + 2, UpdateProgressCb (now s))] else [])"
  "progressRef (effect_body p s) =
     (if safeDuration p > 0 \<and> showProgress p then Some (nextHandle s + 2) else progressRef s)"
  "isLeaving (effect_body p s) = isLeaving s"
  "isVisible (effect_body p s) = isVisible s"
  "mounted (effect_body p s) = mounted s"
  "closeCalls (effect_body p s) = closeCalls s"
  "progress (effect_body p s) = progress s"
  "now (effect_body p s) = now s"
  "renderedLeaving (effect_body p s) = renderedLeaving s"
  "renderedProgress (effect_body p s) = renderedProgress s"
  "uncaught (effect_body p s) = uncaught s"
  by (simp_all add: effect_body_def prim_defs Let_def)

lemma effect_cleanup_fields:
  "timeouts (effect_cleanup s) =
     (case timerRef s of Some h \<Rightarrow> filter (\<lambda>e. th e \<noteq> h) (timeouts s) | None \<Rightarrow> timeouts s)"
  "frames (effect_cleanup s) =
     (case progressRef s of Some f \<Rightarrow> filter (\<lambda>x. fst x \<noteq> f) (frames s) | None \<Rightarrow> frames s)"
  "timerRef (effect_cleanup s) = timerRef s"
  "progressRef (effect_cleanup s) = progressRef s"
  "nextHandle (effect_cleanup s) = nextHandle s"
  "isLeaving (effect_cleanup s) = isLeaving s"
  "isVisible (effect_cleanup s) = isVisible s"
  "mounted (effect_cleanup s) = mounted s"
  "closeCalls (effect_cleanup s) = closeCalls s"
  "progress (effect_cleanup s) = progress s"
  "now (effect_cleanup s) = now s"
  "renderedLeaving (effect_cleanup s) = renderedLeaving s"
  "renderedProgress (effect_cleanup s) = renderedProgress s"
  "uncaught (effect_cleanup s) = uncaught s"
  by (simp_all add: effect_cleanup_def prim_defs Let_def split: option.splits)

lemma handleMouseEnter_cleanup: "handleMouseEnter s = effect_cleanup s"
  by (simp add: handleMouseEnter_def effect_cleanup_def)

lemma handleClose_False_fields:
  "timeouts (handleClose False s) =
     timeouts s @ [\<lparr>th = nextHandle s, setAt = now s, delay = 300, tcb = OnCloseCb\<rparr>]"
  "timerRef (handleClose False s) = timerRef s"
  "progressRef (handleClose False s) = progressRef s"
  "frames (handleClose False s) = frames s"
  "nextHandle (handleClose False s) = Suc (nextHandle s)"
  "isLeaving (handleClose False s) = (mounted s \<or> isLeaving s)"
  "isVisible (handleClose False s) = isVisible s"
  "mounted (handleClose False s) = mounted s"
  "closeCalls (handleClose False s) = closeCalls s"
  "progress (handleClose False s) = progress s"
  "now (handleClose False s) = now s"
  "renderedLeaving (handleClose False s) = renderedLeaving s"
  "renderedProgress (handleClose False s) = renderedProgress s"
  "uncaught (handleClose False s) = uncaught s"
  by (simp_all add: handleClose_def prim_defs)

lemma handleClose_True: "handleClose True s = s"
  by (simp add: handleClose_def)

lemma handleMouseLeave_fields:
  "timeouts (handleMouseLeave p s) =
     (if safeDuration p > 0 \<and> renderedProgress s > 0
      then timeouts s @ [\<lparr>th = nextHandle s, setAt = now s,
                          delay = (renderedProgress s / 100) * safeDuration p,
                          tcb = HandleCloseCb (renderedLeaving s)\<rparr>]
      else timeouts s)"
  "timerRef (handleMouseLeave p s) =
     (if safeDuration p > 0 \<and> renderedProgress s > 0 then Some (nextHandle s) else timerRef s)"
  "frames (handleMouseLeave p s) =
     (if safeDuration p > 0 \<and> renderedProgress s > 0 \<and> showProgress p
      then frames s @ [(Suc (nextHandle s),
                        ResumeProgressCb (now s) (renderedProgress s)
                          ((renderedProgress s / 100) * safeDuration p))]
      else frames s)"
  "progressRef (handleMouseLeave p s) =
     (if safeDuration p > 0 \<and> renderedProgress s > 0 \<and> showProgress p
      then Some (Suc (nextHandle s)) else progressRef s)"
  "nextHandle (handleMouseLeave p s) =
     (if safeDuration p > 0 \<and> renderedProgress s > 0
      then (if showProgress p then nextHandle s + 2 else Suc (nextHandle s)) else nextHandle s)"
  "isLeaving (handleMouseLeave p s) = isLeaving s"
  "isVisible (handleMouseLeave p s) = isVisible s"
  "mounted (handleMouseLeave p s) = mounted s"
  "closeCalls (handleMouseLeave p s) = closeCalls s"
  "progress (handleMouseLeave p s) = progress s"
  "now (handleMouseLeave p s) = now s"
  "renderedLeaving (handleMouseLeave p s) = renderedLeaving s"
  "renderedProgress (handleMouseLeave p s) = renderedProgress s"
  "uncaught (handleMouseLeave p s) = uncaught s"
  by (simp_all add: handleMouseLeave_def prim_defs Let_def)

lemma progress_frame_fields:
  "frames (updateProgress p st s) =
     frames s @ (if 0 < max 0 (100 - (of_int (now s - st) / safeDuration p) * 100) \<and>
                    of_int (now s - st) < safeDuration p
                 then [(nextHandle s, UpdateProgressCb st)] else [])"
  "progressRef (updateProgress p st s) =
     (if 0 < max 0 (100 - (of_int (now s - st) / safeDuration p) * 100) \<and>
         of_int (now s - st) < safeDuration p
      then Some (nextHandle s) else progressRef s)"
  "progress (updateProgress p st s) =
     (if mounted s then max 0 (100 - (of_int (now s - st) / safeDuration p) * 100) else progress s)"
  "frames (resumeProgress st ip rem s) =
     frames s @ (if 0 < max 0 (ip - (of_int (now s - st) / rem) * ip) \<and> of_int (now s - st) < rem
                 then [(nextHandle s, ResumeProgressCb st ip rem)] else [])"
  "progressRef (resumeProgress st ip rem s) =
     (if 0 < max 0 (ip - (of_int (now s - st) / rem) * ip) \<and> of_int (now s - st) < rem
      then Some (nextHandle s) else progressRef s)"
  "progress (resumeProgress st ip rem s) =
     (if mounted s then max 0 (ip - (of_int (now s - st) / rem) * ip) else progress s)"
  "timeouts (updateProgress p st s) = timeouts s" "timeouts (resumeProgress st ip rem s) = timeouts s"
  "timerRef (updateProgress p st s) = timerRef s" "timerRef (resumeProgress st ip rem s) = timerRef s"
  "mounted (updateProgress p st s) = mounted s" "mounted (resumeProgress st ip rem s) = mounted s"
  "isLeaving (updateProgress p st s) = isLeaving s" "isLeaving (resumeProgress st ip rem s) = isLeaving s"
  "renderedLeaving (updateProgress p st s) = renderedLeaving s"
  "renderedLeaving (resumeProgress st ip rem s) = renderedLeaving s"
  "renderedProgress (updateProgress p st s) = renderedProgress s"
  "renderedProgress (resumeProgress st ip rem s) = renderedProgress s"
  "uncaught (updateProgress p st s) = uncaught s" "uncaught (resumeProgress st ip rem s) = uncaught s"
  by (simp_all add: updateProgress_def resumeProgress_def prim_defs Let_def)

lemma commit_fields:
  "isLeaving (commit p s) = isLeaving s"
  "progress (commit p s) = progress s"
  "mounted (commit p s) = mounted s"
  "renderedLeaving (commit p s) = isLeaving s"
  "renderedProgress (commit p s) = progress s"
  "uncaught (commit p s) = uncaught s"
  by (simp_all add: commit_def Let_def effect_body_fields effect_cleanup_fields)

lemma commit_same:
  "isLeaving s = renderedLeaving s \<Longrightarrow>
   commit p s = s\<lparr>renderedLeaving := isLeaving s, renderedProgress := progress s\<rparr>"
  by (simp add: commit_def)

subsection \<open>The cases of a callback run by the host\<close>

lemma run_timeout_cases:
  obtains (Idle) "run_timeout p h s = s"
  | (Close) e b where "e \<in> set (timeouts s)" "th e = h" "tcb e = HandleCloseCb b"
      "timerDelay (delay e) \<le> now s - setAt e"
      "run_timeout p h s = handleClose b (s\<lparr>timeouts := filter (\<lambda>x. th x \<noteq> h) (timeouts s)\<rparr>)"
  | (Dismiss) e where "e \<in> set (timeouts s)" "th e = h" "tcb e = OnCloseCb"
      "timerDelay (delay e) \<le> now s - setAt e"
      "run_timeout p h s =
         s\<lparr>timeouts := filter (\<lambda>x. th x \<noteq> h) (timeouts s),
           closeCalls := (if onClose p = NoCallback then closeCalls s else Suc (closeCalls s)),
           errorLogs := (if onClose p = Callback True \<and> development p
                         then Suc (errorLogs s) else errorLogs s)\<rparr>"
proof (cases "find (\<lambda>e. th e = h) (timeouts s)")
  case None
  then have "run_timeout p h s = s" by (simp add: run_timeout_def)
  then show ?thesis by (rule Idle)
next
  case (Some e)
  then have mem: "e \<in> set (timeouts s)" "th e = h" using find_handle by blast+
  show ?thesis
  proof (cases "now s - setAt e < timerDelay (delay e)")
    case True
    with Some have "run_timeout p h s = s" by (simp add: run_timeout_def)
    then show ?thesis by (rule Idle)
  next
    case False
    then have due: "timerDelay (delay e) \<le> now s - setAt e" by simp
    show ?thesis
    proof (cases "tcb e")
      case (HandleCloseCb b)
      with Some False have
        "run_timeout p h s = handleClose b (s\<lparr>timeouts := filter (\<lambda>x. th x \<noteq> h) (timeouts s)\<rparr>)"
        by (simp add: run_timeout_def Let_def)
      with mem HandleCloseCb due show ?thesis by (rule Close)
    next
      case OnCloseCb
      with Some False have
        "run_timeout p h s =
         s\<lparr>timeouts := filter (\<lambda>x. th x \<noteq> h) (timeouts s),
           closeCalls := (if onClose p = NoCallback then closeCalls s else Suc (closeCalls s)),
           errorLogs := (if onClose p = Callback True \<and> development p
                         then Suc (errorLogs s) else errorLogs s)\<rparr>"
        by (cases "onClose p")
           (auto simp: run_timeout_def Let_def onCloseTimeout_def call_onClose_def)
      with mem OnCloseCb due show ?thesis by (rule Dismiss)
    qed
  qed
qed

lemma run_frame_cases:
  obtains (Idle) "run_frame p h s = s"
  | (Entrance) "(h, EntranceCb) \<in> set (frames s)"
      "run_frame p h s = setIsVisible True (s\<lparr>frames := filter (\<lambda>f. fst f \<noteq> h) (frames s)\<rparr>)"
  | (Update) st where "(h, UpdateProgressCb st) \<in> set (frames s)"
      "run_frame p h s = updateProgress p st (s\<lparr>frames := filter (\<lambda>f. fst f \<noteq> h) (frames s)\<rparr>)"
  | (Resume) st ip rem where "(h, ResumeProgressCb st ip rem) \<in> set (frames s)"
      "run_frame p h s = resumeProgress st ip rem (s\<lparr>frames := filter (\<lambda>f. fst f \<noteq> h) (frames s)\<rparr>)"
proof (cases "map_of (frames s) h")
  case None
  then have "run_frame p h s = s" by (simp add: run_frame_def)
  then show ?thesis by (rule Idle)
next
  case (Some cb)
  then have mem: "(h, cb) \<in> set (frames s)" by (rule map_of_SomeD)
  show ?thesis
  proof (cases cb)
    case EntranceCb
    with Some mem show ?thesis by (intro Entrance) (simp_all add: run_frame_def Let_def)
  next
    case (UpdateProgressCb st)
    with Some mem show ?thesis by (intro Update[of st]) (simp_all add: run_frame_def Let_def)
  next
    case (ResumeProgressCb st ip rem)
    with Some mem show ?thesis by (intro Resume[of st ip rem]) (simp_all add: run_frame_def Let_def)
  qed
qed

lemma run_frame_fields:
  "timeouts (run_frame p h s) = timeouts s"
  "timerRef (run_frame p h s) = timerRef s"
  "isLeaving (run_frame p h s) = isLeaving s"
  "mounted (run_frame p h s) = mounted s"
  "renderedLeaving (run_frame p h s) = renderedLeaving s"
  "renderedProgress (run_frame p h s) = renderedProgress s"
  "uncaught (run_frame p h s) = uncaught s"
  by (cases rule: run_frame_cases[of p h s];
      simp add: progress_frame_fields setIsVisible_def)+

lemma run_timeout_fields:
  "frames (run_timeout p h s) = frames s"
  "progressRef (run_timeout p h s) = progressRef s"
  "timerRef (run_timeout p h s) = timerRef s"
  "progress (run_timeout p h s) = progress s"
  "mounted (run_timeout p h s) = mounted s"
  "renderedLeaving (run_timeout p h s) = renderedLeaving s"
  "renderedProgress (run_timeout p h s) = renderedProgress s"
  "uncaught (run_timeout p h s) = uncaught s"
  "isLeaving s \<Longrightarrow> isLeaving (run_timeout p h s)"
  by (cases rule: run_timeout_cases[of p h s]; cases "mounted s";
      simp add: handleClose_def prim_defs)+

lemma run_snoc: "run p s (evs @ [e]) = step p (run p s evs) e"
  by (simp add: run_def)

lemma paired_snoc:
  "paired hov (evs @ [e]) \<longleftrightarrow> paired hov evs \<and> (e = MouseLeave \<longrightarrow> foldl hover hov evs)"
  by (induction evs arbitrary: hov) auto

lemma safeDuration_nonneg: "0 \<le> safeDuration p"
  by (simp add: safeDuration_def split: jsval.splits)


subsection \<open>The queues of a toast that is not leaving\<close>

lemma isLeaving_step: "isLeaving s \<Longrightarrow> isLeaving (step p s e)"
  by (cases e)
     (simp_all add: step_def run_timeout_fields run_frame_fields handleClose_def prim_defs
        handleKeyDown_def handleMouseEnter_cleanup effect_cleanup_fields handleMouseLeave_fields
        commit_fields)

lemma tracked_cleanup:
  assumes "tracked s"
  shows "timeouts (effect_cleanup s) = []" "no_progress_frames (effect_cleanup s)"
proof -
  show "timeouts (effect_cleanup s) = []"
  proof (cases "timerRef s")
    case None
    then have "timeouts s = []" using assms by (cases "timeouts s") (auto simp: tracked_def)
    with None show ?thesis by (simp add: effect_cleanup_fields)
  next
    case (Some h)
    then have "\<forall>e\<in>set (timeouts s). th e = h" using assms by (auto simp: tracked_def)
    then show ?thesis using Some by (simp add: effect_cleanup_fields filter_empty_conv)
  qed
  show "no_progress_frames (effect_cleanup s)"
  proof (cases "progressRef s")
    case None
    then show ?thesis using assms
      by (auto simp: tracked_def no_progress_frames_def effect_cleanup_fields)
  next
    case (Some h)
    then show ?thesis using assms
      by (auto simp: tracked_def no_progress_frames_def effect_cleanup_fields)
  qed
qed

lemma tracked_same:
  assumes "tracked s" "x \<in> set (timeouts s)" "y \<in> set (timeouts s)"
  shows "th y = th x"
proof -
  have "timerRef s = Some (th x)" "timerRef s = Some (th y)"
    using assms unfolding tracked_def by blast+
  then show ?thesis by simp
qed

lemma no_progress_frames_subset:
  "no_progress_frames s \<Longrightarrow> set (frames s') \<subseteq> set (frames s) \<Longrightarrow> no_progress_frames s'"
  unfolding no_progress_frames_def by blast

lemma tracked_subset:
  assumes "tracked s" "set (timeouts s') \<subseteq> set (timeouts s)" "set (frames s') \<subseteq> set (frames s)"
    "timerRef s' = timerRef s" "progressRef s' = progressRef s"
  shows "tracked s'"
  using assms unfolding tracked_def by (metis subsetD)

lemma tracked_frame_rest:
  assumes t: "tracked s" and m: "(h, cb) \<in> set (frames s)" and c: "cb \<noteq> EntranceCb"
  shows "no_progress_frames (s\<lparr>frames := filter (\<lambda>f. fst f \<noteq> h) (frames s)\<rparr>)"
proof -
  have "progressRef s = Some h" using t m c by (force simp: tracked_def)
  then have "snd f = EntranceCb" if "f \<in> set (frames s)" "fst f \<noteq> h" for f
    using t that by (force simp: tracked_def)
  then show ?thesis by (simp add: no_progress_frames_def)
qed

lemma countdown_inv_shrink:
  assumes inv: "countdown_inv hov s" and nl: "\<not> isLeaving s"
    and sub: "set (timeouts s') \<subseteq> set (timeouts s)" "set (frames s') \<subseteq> set (frames s)"
    and same: "timerRef s' = timerRef s" "progressRef s' = progressRef s" "mounted s' = mounted s"
    and rl: "\<not> renderedLeaving s'"
  shows "countdown_inv hov s'"
proof -
  from inv nl have tr: "tracked s"
    and q: "hov \<or> \<not> mounted s \<Longrightarrow> timeouts s = [] \<and> no_progress_frames s"
    by (simp_all add: countdown_inv_def)
  have "tracked s'" using tr sub same(1,2) by (rule tracked_subset)
  moreover have "timeouts s' = [] \<and> no_progress_frames s'" if "hov \<or> \<not> mounted s'"
  proof -
    from that same(3) q have "timeouts s = []" "no_progress_frames s" by simp_all
    then show ?thesis using sub no_progress_frames_subset[of s s'] by simp
  qed
  ultimately show ?thesis using rl unfolding countdown_inv_def by blast
qed

lemma tracked_resched:
  assumes npf: "no_progress_frames (s\<lparr>frames := filter (\<lambda>f. fst f \<noteq> h) (frames s)\<rparr>)"
    and tr: "tracked s"
    and rf: "run_frame p h s = updateProgress p st (s\<lparr>frames := filter (\<lambda>f. fst f \<noteq> h) (frames s)\<rparr>) \<or>
       run_frame p h s = resumeProgress st ip rem (s\<lparr>frames := filter (\<lambda>f. fst f \<noteq> h) (frames s)\<rparr>)"
  shows "tracked (run_frame p h s)"
proof -
  let ?s1 = "s\<lparr>frames := filter (\<lambda>f. fst f \<noteq> h) (frames s)\<rparr>"
  have "\<exists>c cb. frames (run_frame p h s) = frames ?s1 @ (if c then [(nextHandle ?s1, cb)] else []) \<and>
      progressRef (run_frame p h s) = (if c then Some (nextHandle ?s1) else progressRef ?s1)"
    using rf
  proof
    assume a: "run_frame p h s = updateProgress p st ?s1"
    show ?thesis unfolding a progress_frame_fields(1,2) by (intro exI conjI) (rule refl)+
  next
    assume a: "run_frame p h s = resumeProgress st ip rem ?s1"
    show ?thesis unfolding a progress_frame_fields(4,5) by (intro exI conjI) (rule refl)+
  qed
  then obtain c cb where fr: "frames (run_frame p h s) = frames ?s1 @ (if c then [(nextHandle ?s1, cb)] else [])"
    and pr: "progressRef (run_frame p h s) = (if c then Some (nextHandle ?s1) else progressRef ?s1)"
    by blast
  have "progressRef (run_frame p h s) = Some (fst f)"
    if "f \<in> set (frames (run_frame p h s))" "snd f \<noteq> EntranceCb" for f
  proof (cases "f \<in> set (frames ?s1)")
    case True
    with npf that(2) show ?thesis unfolding no_progress_frames_def by blast
  next
    case False
    with that(1) fr have "c \<and> f = (nextHandle ?s1, cb)" by (auto split: if_splits)
    with pr show ?thesis by simp
  qed
  moreover have "timerRef (run_frame p h s) = Some (th x)" if "x \<in> set (timeouts (run_frame p h s))" for x
    using that tr by (simp add: run_frame_fields tracked_def)
  ultimately show ?thesis unfolding tracked_def by blast
qed

lemma countdown_inv_step:
  assumes inv: "countdown_inv hov s" and pr: "e = MouseLeave \<longrightarrow> hov"
  shows "countdown_inv (hover hov e) (step p s e)"
proof (cases "isLeaving (step p s e)")
  case True
  then show ?thesis by (simp add: countdown_inv_def)
next
  case nl': False
  then have nl: "\<not> isLeaving s" using isLeaving_step by blast
  with inv have rl: "\<not> renderedLeaving s" and tr: "tracked s"
    and q: "hov \<or> \<not> mounted s \<Longrightarrow> timeouts s = [] \<and> no_progress_frames s"
    by (simp_all add: countdown_inv_def)
  note shrink = countdown_inv_shrink[OF inv nl]
  have unm: "countdown_inv hov' s" if "\<not> mounted s" for hov'
    using that rl tr q unfolding countdown_inv_def by blast
  have quiet: "countdown_inv hov' s'"
    if "\<not> renderedLeaving s'" "timeouts s' = []" "no_progress_frames s'" for hov' s'
    using that unfolding countdown_inv_def tracked_def no_progress_frames_def by simp
  show ?thesis
  proof (cases e)
    case (Advance n)
    have "countdown_inv hov (s\<lparr>now := now s + int n\<rparr>)" using rl by (intro shrink) simp_all
    then show ?thesis using Advance by (simp add: step_def)
  next
    case (RunTimeout h)
    have hv: "hover hov e = hov" using RunTimeout by simp
    have st: "step p s e = run_timeout p h s" using RunTimeout by (simp add: step_def)
    show ?thesis unfolding hv st
    proof (cases rule: run_timeout_cases[of p h s])
      case Idle
      then show "countdown_inv hov (run_timeout p h s)" using inv by simp
    next
      case (Close x b)
      show "countdown_inv hov (run_timeout p h s)"
      proof (cases b)
        case True
        then have "run_timeout p h s = s\<lparr>timeouts := filter (\<lambda>x. th x \<noteq> h) (timeouts s)\<rparr>"
          using Close(5) by (simp add: handleClose_True)
        then show ?thesis using rl shrink[of "s\<lparr>timeouts := filter (\<lambda>x. th x \<noteq> h) (timeouts s)\<rparr>"]
          by simp
      next
        case False
        then have "isLeaving (run_timeout p h s) = (mounted s \<or> isLeaving s)"
          using Close by (simp add: handleClose_False_fields)
        with nl' st have "\<not> mounted s" by simp
        with q Close(1) show ?thesis by simp
      qed
    next
      case (Dismiss x)
      show "countdown_inv hov (run_timeout p h s)"
        unfolding Dismiss(5) using rl by (intro shrink) simp_all
    qed
  next
    case (RunFrame h)
    have hv: "hover hov e = hov" using RunFrame by simp
    have st: "step p s e = run_frame p h s" using RunFrame by (simp add: step_def)
    show ?thesis unfolding hv st
    proof (cases rule: run_frame_cases[of p h s])
      case Idle
      then show "countdown_inv hov (run_frame p h s)" using inv by simp
    next
      case Entrance
      show "countdown_inv hov (run_frame p h s)"
        unfolding Entrance(2) using rl by (intro shrink) (auto simp: setIsVisible_def)
    next
      case (Update st)
      have m: "mounted s" "\<not> hov" using q Update(1) by (force simp: no_progress_frames_def)+
      have r: "no_progress_frames (s\<lparr>frames := filter (\<lambda>f. fst f \<noteq> h) (frames s)\<rparr>)"
        using tr Update(1) by (rule tracked_frame_rest) simp
      have "tracked (run_frame p h s)"
        using r tr disjI1[OF Update(2)] by (rule tracked_resched)
      then show "countdown_inv hov (run_frame p h s)"
        using rl m unfolding countdown_inv_def by (simp add: run_frame_fields)
    next
      case (Resume st ip rem)
      have m: "mounted s" "\<not> hov" using q Resume(1) by (force simp: no_progress_frames_def)+
      have r: "no_progress_frames (s\<lparr>frames := filter (\<lambda>f. fst f \<noteq> h) (frames s)\<rparr>)"
        using tr Resume(1) by (rule tracked_frame_rest) simp
      have "tracked (run_frame p h s)"
        using r tr disjI2[OF Resume(2)] by (rule tracked_resched)
      then show "countdown_inv hov (run_frame p h s)"
        using rl m unfolding countdown_inv_def by (simp add: run_frame_fields)
    qed
  next
    case Click
    then have "\<not> mounted s" using nl' rl by (auto simp: step_def handleClose_False_fields)
    then show ?thesis using unm Click by (simp add: step_def)
  next
    case (KeyDown key)
    then have "step p s e = s" using nl' rl
      by (cases "mounted s \<and> key = ''Escape''")
         (auto simp: step_def handleKeyDown_def handleClose_False_fields)
    then show ?thesis using inv KeyDown by simp
  next
    case MouseEnter
    show ?thesis
    proof (cases "mounted s")
      case True
      then have st: "step p s e = effect_cleanup s"
        using MouseEnter by (simp add: step_def handleMouseEnter_cleanup)
      show ?thesis unfolding st using rl tracked_cleanup[OF tr]
        by (intro quiet) (simp_all add: effect_cleanup_fields)
    next
      case False
      then show ?thesis using unm MouseEnter by (simp add: step_def)
    qed
  next
    case MouseLeave
    then have e: "timeouts s = []" "no_progress_frames s" using pr q by simp_all
    show ?thesis
    proof (cases "mounted s")
      case True
      let ?s' = "handleMouseLeave p s"
      have "tracked ?s'" using e unfolding tracked_def no_progress_frames_def
        by (simp add: handleMouseLeave_fields)
      then have "countdown_inv False ?s'" using rl True unfolding countdown_inv_def
        by (simp add: handleMouseLeave_fields)
      then show ?thesis using True MouseLeave by (simp add: step_def)
    next
      case False
      then show ?thesis using unm MouseLeave by (simp add: step_def)
    qed
  next
    case Focus
    then show ?thesis using inv by (simp add: step_def)
  next
    case Blur
    then show ?thesis using inv by (simp add: step_def)
  next
    case Render
    have "countdown_inv hov (s\<lparr>renderedLeaving := isLeaving s, renderedProgress := progress s\<rparr>)"
      using nl by (intro shrink) simp_all
    then show ?thesis using Render nl rl inv by (simp add: step_def commit_same)
  next
    case Unmount
    show ?thesis
    proof (cases "mounted s")
      case True
      then have st: "step p s e = (effect_cleanup s)\<lparr>mounted := False\<rparr>"
        using Unmount by (simp add: step_def)
      show ?thesis unfolding st using rl tracked_cleanup[OF tr]
        by (intro quiet) (simp_all add: effect_cleanup_fields no_progress_frames_def)
    next
      case False
      then show ?thesis using unm Unmount by (simp add: step_def)
    qed
  qed
qed

lemma countdown_inv_mount: "countdown_inv False (mount p t0)"
  by (auto simp: countdown_inv_def tracked_def mount_def effect_body_fields initial_def)

lemma countdown_inv_run:
  assumes "countdown_inv hov s" "paired hov evs"
  shows "countdown_inv (foldl hover hov evs) (run p s evs)"
  using assms(2)
proof (induction evs rule: rev_induct)
  case Nil
  then show ?case using assms(1) by (simp add: run_def)
next
  case (snoc e evs)
  then have "countdown_inv (foldl hover hov evs) (run p s evs)"
    and "e = MouseLeave \<longrightarrow> foldl hover hov evs"
    by (simp_all add: paired_snoc)
  then show ?case using countdown_inv_step by (simp add: run_snoc)
qed

lemma frozen_step:
  assumes q: "timeouts s = []" "no_progress_frames s" "\<not> isLeaving s" "\<not> renderedLeaving s"
    and e: "time_only e"
  shows "timeouts (step p s e) = []" "no_progress_frames (step p s e)"
    "progress (step p s e) = progress s" "\<not> isLeaving (step p s e)"
    "\<not> renderedLeaving (step p s e)" "mounted (step p s e) = mounted s"
proof -
  have "timeouts (step p s e) = [] \<and> no_progress_frames (step p s e) \<and>
        progress (step p s e) = progress s \<and> \<not> isLeaving (step p s e) \<and>
        \<not> renderedLeaving (step p s e) \<and> mounted (step p s e) = mounted s"
  proof (cases e)
    case (Advance n)
    then show ?thesis using q by (simp add: step_def no_progress_frames_def)
  next
    case (RunTimeout h)
    then show ?thesis using q by (simp add: step_def run_timeout_def)
  next
    case (RunFrame h)
    have "run_frame p h s = s \<or>
          run_frame p h s = setIsVisible True (s\<lparr>frames := filter (\<lambda>f. fst f \<noteq> h) (frames s)\<rparr>)"
      using q(2) by (cases rule: run_frame_cases[of p h s]) (force simp: no_progress_frames_def)+
    then show ?thesis using q RunFrame
      by (cases "mounted s") (auto simp: step_def setIsVisible_def no_progress_frames_def)
  next
    case Render
    then show ?thesis using q
      by (cases "mounted s") (simp_all add: step_def commit_same no_progress_frames_def)
  qed (use e q in \<open>simp_all add: step_def\<close>)
  then show "timeouts (step p s e) = []" "no_progress_frames (step p s e)"
    "progress (step p s e) = progress s" "\<not> isLeaving (step p s e)"
    "\<not> renderedLeaving (step p s e)" "mounted (step p s e) = mounted s"
    by simp_all
qed

lemma frozen_run:
  assumes "timeouts s = []" "no_progress_frames s" "\<not> isLeaving s" "\<not> renderedLeaving s"
    "\<forall>e\<in>set ws. time_only e"
  shows "timeouts (run p s ws) = [] \<and> no_progress_frames (run p s ws) \<and>
    progress (run p s ws) = progress s \<and> \<not> isLeaving (run p s ws) \<and>
    \<not> renderedLeaving (run p s ws) \<and> mounted (run p s ws) = mounted s"
  using assms
proof (induction ws rule: rev_induct)
  case Nil
  then show ?case by (simp add: run_def)
next
  case (snoc e ws)
  then have ih: "timeouts (run p s ws) = []" "no_progress_frames (run p s ws)"
    "\<not> isLeaving (run p s ws)" "\<not> renderedLeaving (run p s ws)"
    and rest: "progress (run p s ws) = progress s" "mounted (run p s ws) = mounted s"
    and e: "time_only e"
    by simp_all
  show ?case using frozen_step[OF ih e, of p] rest by (simp add: run_snoc)
qed

lemma pause_cancels:
  assumes tr: "paired False evs" and nl: "\<not> isLeaving (run p (mount p t0) evs)"
  shows "timeouts (step p (run p (mount p t0) evs) MouseEnter) = []"
    "no_progress_frames (step p (run p (mount p t0) evs) MouseEnter)"
    "progress (step p (run p (mount p t0) evs) MouseEnter) = progress (run p (mount p t0) evs)"
    "\<not> isLeaving (step p (run p (mount p t0) evs) MouseEnter)"
    "\<not> renderedLeaving (step p (run p (mount p t0) evs) MouseEnter)"
proof -
  let ?s = "run p (mount p t0) evs"
  let ?s1 = "step p ?s MouseEnter"
  have "countdown_inv (foldl hover False evs) ?s"
    using countdown_inv_mount tr by (rule countdown_inv_run)
  then have rl: "\<not> renderedLeaving ?s" and t: "tracked ?s"
    and u: "\<not> mounted ?s \<Longrightarrow> timeouts ?s = [] \<and> no_progress_frames ?s"
    using nl by (simp_all add: countdown_inv_def)
  have s1: "?s1 = (if mounted ?s then effect_cleanup ?s else ?s)"
    by (simp add: step_def handleMouseEnter_cleanup)
  show "timeouts ?s1 = []" "no_progress_frames ?s1"
    using tracked_cleanup[OF t] u by (simp_all add: s1)
  show "progress ?s1 = progress ?s" "\<not> isLeaving ?s1" "\<not> renderedLeaving ?s1"
    using nl rl by (simp_all add: s1 effect_cleanup_fields)
qed

subsection \<open>Duration 0\<close>

lemma untimed_step:
  assumes z: "safeDuration p = 0" and u: "untimed s"
  shows "untimed (step p s e)"
    and "isLeaving (step p s e) \<Longrightarrow> isLeaving s \<or> e = Click \<or> e = KeyDown ''Escape''"
proof -
  have eb: "untimed (effect_body p s')" if "untimed s'" for s'
    using that z by (auto simp: untimed_def no_progress_frames_def effect_body_fields)
  have cl: "effect_cleanup s' = s'" if "untimed s'" for s'
    using that by (simp add: untimed_def effect_cleanup_def)
  have rn: "untimed (s'\<lparr>renderedLeaving := a, renderedProgress := b\<rparr>)" if "untimed s'" for s' a b
    using that by (simp add: untimed_def no_progress_frames_def)
  have cm: "untimed (commit p s')" if "untimed s'" for s'
  proof (cases "isLeaving s' = renderedLeaving s'")
    case True
    then show ?thesis using that by (simp add: commit_same untimed_def no_progress_frames_def)
  next
    case False
    then show ?thesis using eb[OF rn[OF that]] cl[OF rn[OF that]] by (simp add: commit_def Let_def)
  qed
  have hc: "untimed (handleClose b s')" if "untimed s'" for s' b
    using that by (cases b) (auto simp: untimed_def no_progress_frames_def handleClose_True
        handleClose_False_fields)
  have "untimed (deliver p e s) \<and>
        (isLeaving (deliver p e s) \<longrightarrow> isLeaving s \<or> e = Click \<or> e = KeyDown ''Escape'')"
  proof (cases e)
    case (Advance n)
    then show ?thesis using u by (simp add: untimed_def no_progress_frames_def)
  next
    case (RunTimeout h)
    show ?thesis
    proof (cases rule: run_timeout_cases[of p h s])
      case Idle
      then show ?thesis using u RunTimeout by simp
    next
      case (Close x b)
      then show ?thesis using u by (auto simp: untimed_def)
    next
      case (Dismiss x)
      then show ?thesis using u RunTimeout
        by (auto simp: untimed_def no_progress_frames_def)
    qed
  next
    case (RunFrame h)
    have "run_frame p h s = s \<or>
          run_frame p h s = setIsVisible True (s\<lparr>frames := filter (\<lambda>f. fst f \<noteq> h) (frames s)\<rparr>)"
      using u by (cases rule: run_frame_cases[of p h s]) (force simp: untimed_def no_progress_frames_def)+
    then show ?thesis using u RunFrame
      by (cases "mounted s") (auto simp: untimed_def setIsVisible_def no_progress_frames_def)
  next
    case Click
    then show ?thesis using hc[OF u] u by simp
  next
    case (KeyDown key)
    then show ?thesis using hc[OF u] u by (auto simp: handleKeyDown_def)
  next
    case MouseEnter
    then show ?thesis using u cl[OF u] by (simp add: handleMouseEnter_cleanup)
  next
    case MouseLeave
    then show ?thesis using u z by (simp add: handleMouseLeave_def)
  next
    case Focus
    then show ?thesis using u by simp
  next
    case Blur
    then show ?thesis using u by simp
  next
    case Render
    then show ?thesis using u cm[OF u] by (simp add: commit_fields)
  next
    case Unmount
    then show ?thesis using u cl[OF u] by (auto simp: untimed_def no_progress_frames_def)
  qed
  then show "untimed (step p s e)"
    and "isLeaving (step p s e) \<Longrightarrow> isLeaving s \<or> e = Click \<or> e = KeyDown ''Escape''"
    by (simp_all add: step_def)
qed

lemma safeVariant_cases: "safeVariant p \<in> set validVariants"
  by (simp add: safeVariant_def Let_def validVariants_def)

lemma render_total: "\<exists>v. render p s = Inr v"
  using safeVariant_cases[of p]
  by (auto simp: render_def variantStyles_def Icon_def or_else_def toastIcons_def
        toastVariants_def validVariants_def)

lemma untimed_run:
  assumes z: "safeDuration p = 0"
  shows "untimed (run p (mount p t0) evs) \<and>
    (isLeaving (run p (mount p t0) evs) \<longrightarrow> close_requested evs)"
proof (induction evs rule: rev_induct)
  case Nil
  show ?case using z
    by (simp add: run_def untimed_def no_progress_frames_def mount_def effect_body_fields initial_def)
next
  case (snoc e evs)
  then show ?case using untimed_step[OF z, of "run p (mount p t0) evs" e]
    by (auto simp: run_snoc close_requested_def)
qed

subsection \<open>No progress bar\<close>



subsection \<open>Errors\<close>


subsection \<open>Strings and the animation class\<close>

lemma starts_with_iff: "starts_with s sub \<longleftrightarrow> (\<exists>v. s = sub @ v)"
  by (induction s sub rule: starts_with.induct) auto

lemma str_includes_iff: "str_includes s sub \<longleftrightarrow> (\<exists>u v. s = u @ sub @ v)"
proof (induction s)
  case Nil
  then show ?case by auto
next
  case (Cons x xs)
  show ?case
  proof
    assume "str_includes (x # xs) sub"
    then consider "starts_with (x # xs) sub" | "str_includes xs sub" by auto
    then show "\<exists>u v. x # xs = u @ sub @ v"
    proof cases
      case 1
      then obtain v where "x # xs = sub @ v" by (auto simp: starts_with_iff)
      then have "x # xs = [] @ sub @ v" by simp
      then show ?thesis by blast
    next
      case 2
      then obtain u v where "xs = u @ sub @ v" using Cons.IH by blast
      then have "x # xs = (x # u) @ sub @ v" by simp
      then show ?thesis by blast
    qed
  next
    assume "\<exists>u v. x # xs = u @ sub @ v"
    then obtain u v where uv: "x # xs = u @ sub @ v" by blast
    show "str_includes (x # xs) sub"
    proof (cases u)
      case Nil
      with uv have "starts_with (x # xs) sub" by (auto simp: starts_with_iff)
      then show ?thesis by simp
    next
      case (Cons y ys)
      with uv have "xs = ys @ sub @ v" by simp
      then have "str_includes xs sub" using Cons.IH by blast
      then show ?thesis by simp
    qed
  qed
qed


section \<open>The claims\<close>

subsection \<open>C1: one dismissal\<close>

text \<open>
  C1 fails on the code. The guard of \<open>handleClose\<close> tests the \<open>isLeaving\<close> of the render the
  function belongs to. On the toast with duration 5000 the expiry timer runs at 5000 ms and
  starts the dismissal; the close button is clicked before React has rendered again, so
  the click runs the \<open>handleClose\<close> that still sees \<open>isLeaving = false\<close>, and a second 300 ms
  callback is scheduled while the toast is already leaving. Both callbacks (handles 4 and 5)
  run and \<open>onClose\<close> is called twice. When the render comes before the click, the guard holds, in
  the click and in the expiry timer the effect then sets again, and \<open>onClose\<close> is called once.
\<close>

theorem dismissal_twice_on_stale_click:
  "isLeaving (run saved_toast (mount saved_toast 0) [Advance 5000, RunTimeout 2]) \<and>
   \<not> renderedLeaving (run saved_toast (mount saved_toast 0) [Advance 5000, RunTimeout 2]) \<and>
   map tcb (timeouts (run saved_toast (mount saved_toast 0) [Advance 5000, RunTimeout 2]))
     = [OnCloseCb] \<and>
   map tcb (timeouts (run saved_toast (mount saved_toast 0) stale_click)) = [OnCloseCb, OnCloseCb] \<and>
   closeCalls (run saved_toast (mount saved_toast 0)
     (stale_click @ [Render, Advance 300, RunTimeout 4, RunTimeout 5])) = 2 \<and>
   closeCalls (run saved_toast (mount saved_toast 0)
     [Advance 5000, RunTimeout 2, Render, Click, Advance 300, RunTimeout 4, Advance 5000,
      RunTimeout 6]) = 1"
  by code_simp

subsection \<open>C2: resume\<close>

text \<open>
  C2 fails on the code. \<open>handleMouseLeave\<close> computes the remaining time from the \<open>progress\<close>
  state, and only the progress loop, which runs when \<open>showProgress\<close> is true, ever sets that
  state. The same events reach two toasts with duration 5000 that differ in \<open>showProgress\<close>
  only: a frame at 4900 ms, a render, the pointer entering, 10 ms, the pointer leaving. With
  the bar the progress is 2 and the expiry timer is set again for 100 ms. Without the bar
  the progress is still 100 and the timer is set again for the full 5000 ms: the toast is
  not leaving 4999 ms after the resume and leaves at 5000 ms after it. (The timer set at
  the resume has handle 5 with the bar and handle 3 without it.)
\<close>

theorem resume_resets_without_progress_bar:
  "showProgress saved_toast \<and> \<not> showProgress plain_toast \<and>
   safeDuration saved_toast = 5000 \<and> safeDuration plain_toast = 5000 \<and>
   progress (run saved_toast (mount saved_toast 0) late_hover) = 2 \<and>
   timeouts (run saved_toast (mount saved_toast 0) late_hover)
     = [\<lparr>th = 5, setAt = 4910, delay = 100, tcb = HandleCloseCb False\<rparr>] \<and>
   progress (run plain_toast (mount plain_toast 0) late_hover) = 100 \<and>
   timeouts (run plain_toast (mount plain_toast 0) late_hover)
     = [\<lparr>th = 3, setAt = 4910, delay = 5000, tcb = HandleCloseCb False\<rparr>] \<and>
   \<not> isLeaving (run plain_toast (mount plain_toast 0) (late_hover @ [Advance 4999, RunTimeout 3])) \<and>
   isLeaving (run plain_toast (mount plain_toast 0) (late_hover @ [Advance 5000, RunTimeout 3]))"
  by code_simp

subsection \<open>C3: the progress loop\<close>

text \<open>
  C3 fails on the code. \<open>handleClose\<close> is a dependency of the effect and changes when
  \<open>isLeaving\<close> does, so the render after the toast has started leaving runs the cleanup and
  the effect again, and the effect starts a new progress loop with a new start time. On
  the toast with duration 5000, with no user input: the frame at 4990 ms sets the progress
  to 1/5, the expiry timer runs at 5000 ms, React renders, and the first frame of the new
  loop (handle 8) sets the progress to 100; 300 ms later, when \<open>onClose\<close> is due, a frame sets it to 94.
  The progress has gone up, and it has not reached 0.
\<close>

theorem progress_restarts_when_leaving:
  "progress (run saved_toast (mount saved_toast 0) last_frame) = 1 / 5 \<and>
   \<not> isLeaving (run saved_toast (mount saved_toast 0) last_frame) \<and>
   now (run saved_toast (mount saved_toast 0) expiry_restart) = 5000 \<and>
   isLeaving (run saved_toast (mount saved_toast 0) expiry_restart) \<and>
   progress (run saved_toast (mount saved_toast 0) expiry_restart) = 100 \<and>
   frames (run saved_toast (mount saved_toast 0) expiry_restart)
     = [(1, EntranceCb), (6, EntranceCb), (9, UpdateProgressCb 5000)] \<and>
   progress (run saved_toast (mount saved_toast 0) (expiry_restart @ [Advance 300, RunFrame 9])) = 94"
  by code_simp

subsection \<open>C4: pause\<close>

text \<open>
  C4, as the code has it. For a toast that is not leaving, reached from the mount by a
  trace in which pointer-leave follows pointer-enter, a pointer-enter leaves no timeout and
  no progress callback pending, and however much time then passes, whatever the host
  then runs and whenever React renders, the progress stays what it was at the pause and
  the toast does not start leaving.
\<close>

theorem pause_freezes_progress:
  assumes tr: "paired False evs" and nl: "\<not> isLeaving (run p (mount p t0) evs)"
    and ws: "\<forall>e\<in>set ws. time_only e"
  shows "timeouts (step p (run p (mount p t0) evs) MouseEnter) = [] \<and>
    no_progress_frames (step p (run p (mount p t0) evs) MouseEnter) \<and>
    progress (run p (step p (run p (mount p t0) evs) MouseEnter) ws)
      = progress (run p (mount p t0) evs) \<and>
    \<not> isLeaving (run p (step p (run p (mount p t0) evs) MouseEnter) ws) \<and>
    timeouts (run p (step p (run p (mount p t0) evs) MouseEnter) ws) = [] \<and>
    no_progress_frames (run p (step p (run p (mount p t0) evs) MouseEnter) ws)"
proof -
  let ?s1 = "step p (run p (mount p t0) evs) MouseEnter"
  have cancelled: "timeouts ?s1 = []" "no_progress_frames ?s1"
    and still: "\<not> isLeaving ?s1" "\<not> renderedLeaving ?s1"
    and kept: "progress ?s1 = progress (run p (mount p t0) evs)"
    using pause_cancels[OF tr nl] by simp_all
  have "timeouts (run p ?s1 ws) = [] \<and> no_progress_frames (run p ?s1 ws) \<and>
      progress (run p ?s1 ws) = progress ?s1 \<and> \<not> isLeaving (run p ?s1 ws) \<and>
      \<not> renderedLeaving (run p ?s1 ws) \<and> mounted (run p ?s1 ws) = mounted ?s1"
    using cancelled still ws by (rule frozen_run)
  with cancelled kept show ?thesis by simp
qed

text \<open>
  C4 on the toast with duration 5000, paused at progress 80: the expiry timer is gone and
  the progress is still 80 after 2000 ms.
\<close>

theorem pause_freezes_progress_witness:
  "paired False pause_trace \<and> \<not> isLeaving (run saved_toast (mount saved_toast 0) pause_trace) \<and>
   list_all time_only wait_trace \<and>
   timeouts (run saved_toast (mount saved_toast 0) pause_trace) \<noteq> [] \<and>
   timeouts (step saved_toast (run saved_toast (mount saved_toast 0) pause_trace) MouseEnter) = [] \<and>
   progress (run saved_toast (mount saved_toast 0) pause_trace) = 80 \<and>
   progress (run saved_toast (step saved_toast (run saved_toast (mount saved_toast 0) pause_trace) MouseEnter) wait_trace) = 80"
proof -
  have tr: "paired False pause_trace" by (simp add: pause_trace_def)
  have nl: "\<not> isLeaving (run saved_toast (mount saved_toast 0) pause_trace)" by code_simp
  have ws: "\<forall>e\<in>set wait_trace. time_only e" by (simp add: wait_trace_def)
  have t: "timeouts (run saved_toast (mount saved_toast 0) pause_trace) \<noteq> []" by code_simp
  have pg: "progress (run saved_toast (mount saved_toast 0) pause_trace) = 80" by code_simp
  from pause_freezes_progress[OF tr nl ws] tr nl ws t pg show ?thesis
    by (simp add: list_all_iff)
qed

text \<open>
  C4 as stated fails for focus: the element has no focus handler, so after the focus has
  entered the toast the expiry timer and the progress callback are still pending and the
  progress goes on falling.
\<close>

theorem focus_does_not_pause:
  "timeouts (step saved_toast (mount saved_toast 0) Focus) = timeouts (mount saved_toast 0) \<and>
   timeouts (step saved_toast (mount saved_toast 0) Focus) \<noteq> [] \<and>
   \<not> no_progress_frames (step saved_toast (mount saved_toast 0) Focus) \<and>
   progress (step saved_toast (mount saved_toast 0) Focus) = 100 \<and>
   progress (run saved_toast (step saved_toast (mount saved_toast 0) Focus) [Advance 1000, RunFrame 3]) = 80"
  by code_simp

subsection \<open>C5: duration 0\<close>

text \<open>
  C5. For a toast with duration 0, whatever events it receives: the mount starts no
  timer, no expiry timer is ever pending (the only timeouts are the 300 ms callbacks of a
  close) and \<open>timerRef\<close> is never assigned, no progress callback is ever scheduled, the
  render has no progress bar, and the toast is leaving only if the close button was clicked
  or the Escape key was pressed.
\<close>

theorem zero_duration_persists:
  assumes "duration p = JNum 0"
  shows "timeouts (mount p t0) = [] \<and>
    (\<forall>e\<in>set (timeouts (run p (mount p t0) evs)). tcb e = OnCloseCb) \<and>
    timerRef (run p (mount p t0) evs) = None \<and>
    no_progress_frames (run p (mount p t0) evs) \<and>
    (\<exists>v. render p (run p (mount p t0) evs) = Inr v \<and> progressBar v = None) \<and>
    (isLeaving (run p (mount p t0) evs) \<longrightarrow>
       Click \<in> set evs \<or> KeyDown ''Escape'' \<in> set evs)"
proof -
  have z: "safeDuration p = 0" using assms by (simp add: safeDuration_def default_param_def)
  obtain v where "render p (run p (mount p t0) evs) = Inr v" using render_total by blast
  moreover from this have "progressBar v = None"
    using z by (auto simp: render_def split: option.splits)
  moreover have "timeouts (mount p t0) = []"
    using z by (simp add: mount_def effect_body_fields initial_def)
  ultimately show ?thesis using untimed_run[OF z, of t0 evs]
    by (auto simp: untimed_def close_requested_def)
qed

text \<open>
  C5 on a toast with duration 0: after 5000 ms, a hover and another key it is visible and
  not leaving, and the Escape key then makes it leave.
\<close>

theorem zero_duration_persists_witness:
  "duration sticky_toast = JNum 0 \<and> timeouts (run sticky_toast (mount sticky_toast 0) idle_trace) = [] \<and>
   \<not> isLeaving (run sticky_toast (mount sticky_toast 0) idle_trace) \<and> isVisible (run sticky_toast (mount sticky_toast 0) idle_trace) \<and>
   isLeaving (run sticky_toast (mount sticky_toast 0) (idle_trace @ [KeyDown ''Escape'']))"
proof -
  have d: "duration sticky_toast = JNum 0" by (simp add: sticky_toast_def)
  have n: "Click \<notin> set idle_trace" "KeyDown ''Escape'' \<notin> set idle_trace"
    by (simp_all add: idle_trace_def)
  have t: "timeouts (run sticky_toast (mount sticky_toast 0) idle_trace) = []" by code_simp
  have v: "isVisible (run sticky_toast (mount sticky_toast 0) idle_trace)" by code_simp
  have l: "isLeaving (run sticky_toast (mount sticky_toast 0) (idle_trace @ [KeyDown ''Escape'']))" by code_simp
  from zero_duration_persists[OF d, of 0 idle_trace] n d t v l show ?thesis by blast
qed

subsection \<open>C6: teardown\<close>

text \<open>
  C6 fails on the code. The close button is clicked 1000 ms after the mount and the parent
  unmounts the toast at once: the cleanup has cancelled what \<open>timerRef\<close> and \<open>progressRef\<close>
  name, but the 300 ms callback of \<open>handleClose\<close>, whose handle is stored nowhere, is still
  pending on the unmounted instance, and when the host runs it 300 ms later \<open>onClose\<close> is
  called. The same happens when React renders between the click and the unmount.
\<close>

theorem dismissal_fires_after_unmount:
  "\<not> mounted (run saved_toast (mount saved_toast 0) close_then_unmount) \<and>
   map tcb (timeouts (run saved_toast (mount saved_toast 0) close_then_unmount)) = [OnCloseCb] \<and>
   closeCalls (run saved_toast (mount saved_toast 0) close_then_unmount) = 0 \<and>
   closeCalls (run saved_toast (mount saved_toast 0) (close_then_unmount @ [Advance 300, RunTimeout 4])) = 1 \<and>
   map tcb (timeouts (run saved_toast (mount saved_toast 0) [Advance 1000, Click, Render, Unmount]))
     = [OnCloseCb] \<and>
   closeCalls (run saved_toast (mount saved_toast 0)
     [Advance 1000, Click, Render, Unmount, Advance 300, RunTimeout 4]) = 1"
  by code_simp

subsection \<open>C7: the animation class\<close>

text \<open>
  C7. The animation class depends on the phase and the position only. In the Visible
  phase it is the slide-in class of the direction the position selects (right if the
  position contains "right", else left if it contains "left", else top if it contains
  "top", else bottom if it contains "bottom", else right); in the Leaving phase it is the
  slide-out class of the same direction. The class is the token with the prefix
  \<open>animate-\<close>.
\<close>

theorem getAnimationClass_spec:
  "(phase_of s = phase_of s' \<and> position p = position p' \<longrightarrow>
      getAnimationClass p s = getAnimationClass p' s') \<and>
   (phase_of s = Visible \<longrightarrow>
      getAnimationClass p s = ''animate-'' @ spec_animation_token Visible (position p)) \<and>
   (phase_of s = Leaving \<longrightarrow>
      getAnimationClass p s = ''animate-'' @ spec_animation_token Leaving (position p))"
  by (auto simp: getAnimationClass_def phase_of_def spec_direction_def spec_animation_token_def
      str_includes_iff Let_def split: if_splits)

text \<open>C7 on a visible toast at bottom-center and a leaving toast at top-left.\<close>

theorem getAnimationClass_spec_witness:
  "phase_of ((initial 0)\<lparr>isVisible := True\<rparr>) = Visible \<and>
   phase_of ((initial 0)\<lparr>isLeaving := True\<rparr>) = Leaving \<and>
   getAnimationClass (saved_toast\<lparr>position := ''bottom-center''\<rparr>) ((initial 0)\<lparr>isVisible := True\<rparr>)
     = ''animate-slide-in-from-bottom'' \<and>
   getAnimationClass (saved_toast\<lparr>position := ''top-left''\<rparr>) ((initial 0)\<lparr>isLeaving := True\<rparr>)
     = ''animate-slide-out-to-left''"
proof -
  have v: "phase_of ((initial 0)\<lparr>isVisible := True\<rparr>) = Visible"
    by (simp add: phase_of_def initial_def)
  have l: "phase_of ((initial 0)\<lparr>isLeaving := True\<rparr>) = Leaving"
    by (simp add: phase_of_def initial_def)
  have d1: "spec_direction ''bottom-center'' = ''bottom''"
    unfolding spec_direction_def str_includes_iff[symmetric] by simp
  have d2: "spec_direction ''top-left'' = ''left''"
    unfolding spec_direction_def str_includes_iff[symmetric] by simp
  from getAnimationClass_spec[of "(initial 0)\<lparr>isVisible := True\<rparr>" _
      "saved_toast\<lparr>position := ''bottom-center''\<rparr>"] v
  have a: "getAnimationClass (saved_toast\<lparr>position := ''bottom-center''\<rparr>) ((initial 0)\<lparr>isVisible := True\<rparr>)
      = ''animate-'' @ spec_animation_token Visible ''bottom-center''"
    by simp
  from getAnimationClass_spec[of "(initial 0)\<lparr>isLeaving := True\<rparr>" _
      "saved_toast\<lparr>position := ''top-left''\<rparr>"] l
  have b: "getAnimationClass (saved_toast\<lparr>position := ''top-left''\<rparr>) ((initial 0)\<lparr>isLeaving := True\<rparr>)
      = ''animate-'' @ spec_animation_token Leaving ''top-left''"
    by simp
  from a b v l d1 d2 show ?thesis by (simp add: spec_animation_token_def)
qed


subsection \<open>C8: variant fallback\<close>

text \<open>
  C8. When the \<open>variant\<close> prop is not one of success, error, warning, info (a missing one,
  \<open>undefined\<close>, included), the variant used is info: the render is the render of the same
  props with variant info, it returns an element and raises nothing, and the element has
  the info icon and the info colours.
\<close>

theorem variant_fallback:
  assumes "variant p \<notin> set validVariants"
  shows "safeVariant p = JStr ''info'' \<and>
     render p s = render (p\<lparr>variant := JStr ''info''\<rparr>) s \<and>
     (\<exists>v. render p s = Inr v \<and> iconElement v = Info \<and>
        containerClass v = ''toast-info border-blue-200 dark:border-blue-800 bg-blue-50 dark:bg-blue-900/20'' \<and>
        iconClass v = ''text-blue-600 dark:text-blue-400'' \<and>
        iconBgClass v = ''bg-blue-100 dark:bg-blue-900/30'' \<and>
        (\<forall>bar. progressBar v = Some bar \<longrightarrow> fst bar = [''bg-blue-500'']))"
proof -
  have sv: "safeVariant p = JStr ''info''"
    using assms by (auto simp: safeVariant_def default_param_def Let_def validVariants_def)
  have sv': "safeVariant (p\<lparr>variant := JStr ''info''\<rparr>) = JStr ''info''"
    by (simp add: safeVariant_def default_param_def Let_def validVariants_def)
  show ?thesis
    by (simp add: sv sv' render_def variantStyles_def Icon_def or_else_def toastIcons_def
        toastVariants_def barColor_def getAnimationClass_def safeDuration_def)
qed

text \<open>C8 on the variant \<open>"bogus"\<close> and on a missing variant.\<close>

theorem variant_fallback_witness:
  "variant (saved_toast\<lparr>variant := JStr ''bogus''\<rparr>) \<notin> set validVariants \<and>
   variant (saved_toast\<lparr>variant := JUndefined\<rparr>) \<notin> set validVariants \<and>
   safeVariant (saved_toast\<lparr>variant := JStr ''bogus''\<rparr>) = JStr ''info'' \<and>
   (\<exists>v. render (saved_toast\<lparr>variant := JUndefined\<rparr>) (mount saved_toast 0) = Inr v \<and> iconElement v = Info)"
proof -
  have h1: "variant (saved_toast\<lparr>variant := JStr ''bogus''\<rparr>) \<notin> set validVariants"
    by (simp add: validVariants_def)
  have h2: "variant (saved_toast\<lparr>variant := JUndefined\<rparr>) \<notin> set validVariants"
    by (simp add: validVariants_def)
  from variant_fallback[OF h1] variant_fallback[OF h2, of "mount saved_toast 0"] h1 h2
  show ?thesis by blast
qed


subsection \<open>C9: a throwing \<open>onClose\<close>\<close>




subsection \<open>C10: the expiry timer and \<open>showProgress\<close>\<close>




end
